theory Spec2Isabelle
  imports Main "HOL-Library.Word"
begin

unbundle bit_operations_syntax

section \<open>Types of system\_hal.h\<close>

text \<open>
  The return codes of the HAL (\<^verbatim>\<open>hal_status_t\<close>). The model is of the reference build for
  64-bit Linux: \<^verbatim>\<open>size_t\<close>, \<^verbatim>\<open>uintptr_t\<close>, \<^verbatim>\<open>time_t\<close> and \<^verbatim>\<open>long\<close> are 64 bits wide, a pointer
  is its address and the null pointer is the address 0.
\<close>

datatype hal_status_t = HAL_OK | HAL_ERROR | HAL_TIMEOUT | HAL_BUSY | HAL_INVALID_PARAM

type_synonym hal_timestamp_us_t = "64 word"

type_synonym pointer = "64 word"

abbreviation (input) NULL :: pointer where
  "NULL \<equiv> 0"

section \<open>Static data\<close>

text \<open>
  The file-scope variables of system\_hal.c: the structure \<^verbatim>\<open>g_hal_state\<close> and the counter
  \<^verbatim>\<open>g_interrupt_nesting\<close>, with the values their initialisers give them.
\<close>

record hal_globals =
  initialized :: bool
  start_time_us :: hal_timestamp_us_t
  g_interrupt_nesting :: "32 word"

definition hal_globals_init :: hal_globals where
  "hal_globals_init = \<lparr>initialized = False, start_time_us = 0, g_interrupt_nesting = 0\<rparr>"

section \<open>Interrupt functions\<close>

text \<open>\<^verbatim>\<open>return g_interrupt_nesting++;\<close> on a \<^verbatim>\<open>uint32_t\<close>: the increment wraps at \<open>2 ^ 32\<close>.\<close>

definition hal_disable_interrupts :: "hal_globals \<Rightarrow> 32 word \<times> hal_globals" where
  "hal_disable_interrupts g =
     (g_interrupt_nesting g, g\<lparr>g_interrupt_nesting := g_interrupt_nesting g + 1\<rparr>)"

definition hal_restore_interrupts :: "32 word \<Rightarrow> hal_globals \<Rightarrow> hal_globals" where
  "hal_restore_interrupts state g =
     (if g_interrupt_nesting g > 0
      then g\<lparr>g_interrupt_nesting := g_interrupt_nesting g - 1\<rparr>
      else g)"

definition hal_enter_critical :: "hal_globals \<Rightarrow> hal_globals" where
  "hal_enter_critical g = snd (hal_disable_interrupts g)"

definition hal_exit_critical :: "hal_globals \<Rightarrow> hal_globals" where
  "hal_exit_critical g = hal_restore_interrupts 0 g"

text \<open>
  A caller's sequence of calls into the interrupt functions, run from left to right on the
  globals. The tokens that the disable calls return are dropped here; a restore call carries
  the token the caller passes.
\<close>

datatype irq_call = Disable | Restore "32 word" | EnterCritical | ExitCritical

fun irq_step :: "irq_call \<Rightarrow> hal_globals \<Rightarrow> hal_globals" where
  "irq_step Disable g = snd (hal_disable_interrupts g)"
| "irq_step (Restore state) g = hal_restore_interrupts state g"
| "irq_step EnterCritical g = hal_enter_critical g"
| "irq_step ExitCritical g = hal_exit_critical g"

fun irq_run :: "irq_call list \<Rightarrow> hal_globals \<Rightarrow> hal_globals" where
  "irq_run [] g = g"
| "irq_run (c # cs) g = irq_run cs (irq_step c g)"

fun is_disable :: "irq_call \<Rightarrow> bool" where
  "is_disable Disable = True"
| "is_disable EnterCritical = True"
| "is_disable _ = False"

definition disables :: "irq_call list \<Rightarrow> nat" where
  "disables cs = length (filter is_disable cs)"

definition restores :: "irq_call list \<Rightarrow> nat" where
  "restores cs = length (filter (\<lambda>c. \<not> is_disable c) cs)"

text \<open>
  A sequence is well nested from a counter value \<open>n\<close> when the depth \<open>n\<close> plus disables
  minus restores stays within the range of the counter after every prefix: no restore is
  issued at depth zero, and no disable at depth \<open>2 ^ 32 - 1\<close>.
\<close>

definition well_nested :: "nat \<Rightarrow> irq_call list \<Rightarrow> bool" where
  "well_nested n cs =
     list_all (\<lambda>k. restores (take k cs) \<le> n + disables (take k cs)
                 \<and> n + disables (take k cs) < 2 ^ 32 + restores (take k cs))
       [0..<Suc (length cs)]"

text \<open>The critical-section wrappers written out as the raw calls they make.\<close>

fun as_raw :: "irq_call \<Rightarrow> irq_call" where
  "as_raw EnterCritical = Disable"
| "as_raw ExitCritical = Restore 0"
| "as_raw c = c"

section \<open>Timer and DMA functions\<close>

text \<open>
  The configuration structures are only ever compared with the null pointer, so a
  configuration argument is modelled by its address.
\<close>

definition hal_timer_init :: "8 word \<Rightarrow> pointer \<Rightarrow> hal_status_t" where
  "hal_timer_init timer_id config = (if config = NULL then HAL_INVALID_PARAM else HAL_OK)"

definition hal_timer_start :: "8 word \<Rightarrow> hal_status_t" where
  "hal_timer_start timer_id = HAL_OK"

definition hal_timer_stop :: "8 word \<Rightarrow> hal_status_t" where
  "hal_timer_stop timer_id = HAL_OK"

text \<open>
  \<^verbatim>\<open>hal_timer_get_counter\<close> writes through its output pointer: the memory it can write is a
  store of \<^verbatim>\<open>uint32_t\<close> objects by address.
\<close>

type_synonym u32_store = "pointer \<Rightarrow> 32 word"

definition hal_timer_get_counter :: "8 word \<Rightarrow> pointer \<Rightarrow> u32_store \<Rightarrow> hal_status_t \<times> u32_store" where
  "hal_timer_get_counter timer_id counter mem =
     (if counter = NULL then (HAL_INVALID_PARAM, mem)
      else (HAL_OK, mem(counter := 0)))"

definition hal_dma_init :: "8 word \<Rightarrow> pointer \<Rightarrow> hal_status_t" where
  "hal_dma_init dma_id config = (if config = NULL then HAL_INVALID_PARAM else HAL_OK)"

definition hal_dma_start :: "8 word \<Rightarrow> hal_status_t" where
  "hal_dma_start dma_id = HAL_OK"

section \<open>The platform underneath\<close>

text \<open>
  What the C library and the kernel contribute is not code of system\_hal.c, so it is a
  parameter of the model. The record below holds the build configuration (which of the
  preprocessor branches are compiled) and the answers of the environment:
  \<^item> \<open>clock_result k c\<close> is what the \<open>k\<close>-th call of \<^verbatim>\<open>clock_gettime\<close> of the process stores when
    it is asked for clock \<open>c\<close>, or \<open>None\<close> when that call returns non-zero;
  \<^item> \<open>nanosleep_log\<close> collects the requests handed to \<^verbatim>\<open>nanosleep\<close>, latest first. The code
    discards the return value of \<^verbatim>\<open>nanosleep\<close>, which may return early when a signal arrives;
    how long a sleep really lasted shows only in the clock readings that follow it;
  \<^item> \<open>malloc_result k n\<close> and \<open>posix_memalign_result k a n\<close> are the answers of the allocator
    at its \<open>k\<close>-th call; \<open>heap_blocks\<close> maps the base of every live block to its size, and
    \<open>ptr_mem\<close> holds the pointer-sized objects stored in memory, by address.
\<close>

record timespec =
  tv_sec :: "64 word"
  tv_nsec :: "64 word"

datatype clockid_t = CLOCK_MONOTONIC_RAW | CLOCK_MONOTONIC

record platform =
  HAS_CLOCK_MONOTONIC_RAW :: bool
  POSIX_C_SOURCE_200112 :: bool
  clock_result :: "nat \<Rightarrow> clockid_t \<Rightarrow> timespec option"
  clock_calls :: nat
  nanosleep_log :: "timespec list"
  malloc_result :: "nat \<Rightarrow> 64 word \<Rightarrow> pointer"
  posix_memalign_result :: "nat \<Rightarrow> 64 word \<Rightarrow> 64 word \<Rightarrow> int \<times> pointer"
  heap_calls :: nat
  heap_blocks :: "pointer \<rightharpoonup> 64 word"
  ptr_mem :: "pointer \<Rightarrow> pointer"

definition clock_gettime :: "clockid_t \<Rightarrow> platform \<Rightarrow> timespec option \<times> platform" where
  "clock_gettime c p = (clock_result p (clock_calls p) c, p\<lparr>clock_calls := clock_calls p + 1\<rparr>)"

definition nanosleep :: "timespec \<Rightarrow> platform \<Rightarrow> platform" where
  "nanosleep req p = p\<lparr>nanosleep_log := req # nanosleep_log p\<rparr>"

definition hal_spin_hint :: "platform \<Rightarrow> platform" where
  "hal_spin_hint p = p"

section \<open>Timing functions\<close>

text \<open>
  \<^verbatim>\<open>(hal_timestamp_us_t)ts.tv_sec * 1000000ULL + (hal_timestamp_us_t)ts.tv_nsec / 1000ULL\<close>,
  in 64-bit unsigned arithmetic.
\<close>

definition timespec_to_us :: "timespec \<Rightarrow> hal_timestamp_us_t" where
  "timespec_to_us ts = tv_sec ts * 1000000 + tv_nsec ts div 1000"

definition hal_get_timestamp_us_fallback :: "platform \<Rightarrow> hal_timestamp_us_t \<times> platform" where
  "hal_get_timestamp_us_fallback p =
     (case clock_gettime CLOCK_MONOTONIC p of
        (Some ts, p') \<Rightarrow> (timespec_to_us ts, p')
      | (None, p') \<Rightarrow> (0, p'))"

definition hal_get_timestamp_us :: "platform \<Rightarrow> hal_timestamp_us_t \<times> platform" where
  "hal_get_timestamp_us p =
     (if HAS_CLOCK_MONOTONIC_RAW p
      then (case clock_gettime CLOCK_MONOTONIC_RAW p of
              (Some ts, p') \<Rightarrow> (timespec_to_us ts, p')
            | (None, p') \<Rightarrow> hal_get_timestamp_us_fallback p')
      else hal_get_timestamp_us_fallback p)"

text \<open>
  The busy-wait loop of \<^verbatim>\<open>hal_delay_us\<close>: \<^verbatim>\<open>while (hal_get_timestamp_us() < end) hal_spin_hint();\<close>.
  It runs for as long as the clock stays below \<open>end\<close>, so it is a partial function: \<open>None\<close>
  is the loop that never exits.
\<close>

partial_function (option) hal_delay_us_loop :: "hal_timestamp_us_t \<Rightarrow> platform \<Rightarrow> platform option" where
  "hal_delay_us_loop end_us p =
     (case hal_get_timestamp_us p of
        (t, p') \<Rightarrow> if t < end_us then hal_delay_us_loop end_us (hal_spin_hint p') else Some p')"

definition hal_delay_us :: "32 word \<Rightarrow> platform \<Rightarrow> platform option" where
  "hal_delay_us delay_us p =
     (case hal_get_timestamp_us p of
        (start, p') \<Rightarrow>
          let end_us = start + ucast delay_us in
          if delay_us > 10000
          then Some (nanosleep \<lparr>tv_sec = ucast (delay_us div 1000000),
                                tv_nsec = ucast ((delay_us mod 1000000) * 1000)\<rparr> p')
          else hal_delay_us_loop end_us p')"

definition hal_dma_wait :: "8 word \<Rightarrow> 32 word \<Rightarrow> platform \<Rightarrow> (hal_status_t \<times> platform) option" where
  "hal_dma_wait dma_id timeout_us p =
     (if timeout_us > 0
      then (case hal_delay_us timeout_us p of
              None \<Rightarrow> None
            | Some p' \<Rightarrow> Some (HAL_OK, p'))
      else Some (HAL_OK, p))"

text \<open>
  What a caller observes of the clock. \<open>timestamp_at p k\<close> is the value a call of
  \<^verbatim>\<open>hal_get_timestamp_us\<close> returns when \<open>k\<close> calls of \<^verbatim>\<open>clock_gettime\<close> went before it.
\<close>

definition timestamp_at :: "platform \<Rightarrow> nat \<Rightarrow> hal_timestamp_us_t" where
  "timestamp_at p k = fst (hal_get_timestamp_us (p\<lparr>clock_calls := k\<rparr>))"

definition timestamps_nondecreasing :: "platform \<Rightarrow> bool" where
  "timestamps_nondecreasing p = (\<forall>i j. i \<le> j \<longrightarrow> timestamp_at p i \<le> timestamp_at p j)"

definition clock_reaches :: "platform \<Rightarrow> hal_timestamp_us_t \<Rightarrow> bool" where
  "clock_reaches p end_us = (\<exists>k. end_us \<le> timestamp_at p k)"

text \<open>
  The order of two readings of one clock, and the assumptions on the clocks themselves:
  a clock never runs backwards; its readings are normalised (\<open>tv_nsec\<close> below \<open>10^9\<close>) and
  small enough for the conversion to microseconds not to wrap; and a clock source that
  answers one call answers every call (availability does not change while the process runs).
\<close>

definition timespec_le :: "timespec \<Rightarrow> timespec \<Rightarrow> bool" where
  "timespec_le a b = (tv_sec a < tv_sec b \<or> (tv_sec a = tv_sec b \<and> tv_nsec a \<le> tv_nsec b))"

definition clock_nondecreasing :: "platform \<Rightarrow> bool" where
  "clock_nondecreasing p =
     (\<forall>c i j a b. i \<le> j \<longrightarrow> clock_result p i c = Some a \<longrightarrow> clock_result p j c = Some b
        \<longrightarrow> timespec_le a b)"

definition clock_in_range :: "platform \<Rightarrow> bool" where
  "clock_in_range p =
     (\<forall>c i a. clock_result p i c = Some a
        \<longrightarrow> tv_nsec a < 1000000000 \<and> tv_sec a < 18446744073709)"

definition clock_sources_stable :: "platform \<Rightarrow> bool" where
  "clock_sources_stable p =
     (\<forall>c i j. (clock_result p i c = None) = (clock_result p j c = None))"

section \<open>Memory functions\<close>

text \<open>
  \<^verbatim>\<open>malloc\<close> and \<^verbatim>\<open>free\<close> as the platform gives them: a successful \<^verbatim>\<open>malloc\<close> records the new
  block, \<^verbatim>\<open>free\<close> forgets the block at the address it is given.
\<close>

definition malloc :: "64 word \<Rightarrow> platform \<Rightarrow> pointer \<times> platform" where
  "malloc n p =
     (let raw = malloc_result p (heap_calls p) n;
          p' = p\<lparr>heap_calls := heap_calls p + 1\<rparr>
      in if raw = NULL then (NULL, p')
         else (raw, p'\<lparr>heap_blocks := (heap_blocks p')(raw \<mapsto> n)\<rparr>))"

definition posix_memalign :: "64 word \<Rightarrow> 64 word \<Rightarrow> platform \<Rightarrow> (int \<times> pointer) \<times> platform" where
  "posix_memalign alignment n p =
     (let (rc, ptr) = posix_memalign_result p (heap_calls p) alignment n;
          p' = p\<lparr>heap_calls := heap_calls p + 1\<rparr>
      in if rc \<noteq> 0 then ((rc, NULL), p')
         else ((0, ptr), p'\<lparr>heap_blocks := (heap_blocks p')(ptr \<mapsto> n)\<rparr>))"

definition free :: "pointer \<Rightarrow> platform \<Rightarrow> platform" where
  "free ptr p = p\<lparr>heap_blocks := (heap_blocks p)(ptr := None)\<rparr>"

text \<open>\<^verbatim>\<open>sizeof(void*)\<close> on the 64-bit reference platform.\<close>

definition sizeof_ptr :: "64 word" where
  "sizeof_ptr = 8"

text \<open>
  The fallback branch of \<^verbatim>\<open>hal_malloc_aligned\<close>. The sum \<^verbatim>\<open>size + alignment + sizeof(void*)\<close> and
  the rounding \<^verbatim>\<open>(addr + alignment - 1) & ~(alignment - 1)\<close> are \<^verbatim>\<open>size_t\<close> and \<^verbatim>\<open>uintptr_t\<close>
  arithmetic and wrap at \<open>2 ^ 64\<close> (the parameter \<^verbatim>\<open>size\<close> is \<open>sz\<close> here); \<^verbatim>\<open>*((void**)aligned - 1) = raw\<close> stores \<open>raw\<close> in the
  pointer-sized object at \<open>aligned - sizeof(void*)\<close>.
\<close>

definition hal_malloc_aligned_fallback :: "64 word \<Rightarrow> 64 word \<Rightarrow> platform \<Rightarrow> pointer \<times> platform" where
  "hal_malloc_aligned_fallback sz alignment p =
     (case malloc (sz + alignment + sizeof_ptr) p of
        (raw, p') \<Rightarrow>
          if raw = NULL then (NULL, p')
          else let addr = raw + sizeof_ptr;
                   aligned = (addr + alignment - 1) AND NOT (alignment - 1)
               in (aligned, p'\<lparr>ptr_mem := (ptr_mem p')(aligned - sizeof_ptr := raw)\<rparr>))"

definition hal_malloc_aligned :: "64 word \<Rightarrow> 64 word \<Rightarrow> platform \<Rightarrow> pointer \<times> platform" where
  "hal_malloc_aligned sz alignment p =
     (if POSIX_C_SOURCE_200112 p
      then (case posix_memalign alignment sz p of
              ((rc, ptr), p') \<Rightarrow> if rc \<noteq> 0 then (NULL, p') else (ptr, p'))
      else hal_malloc_aligned_fallback sz alignment p)"

definition hal_free_aligned :: "pointer \<Rightarrow> platform \<Rightarrow> platform" where
  "hal_free_aligned ptr p =
     (if ptr = NULL then p
      else if POSIX_C_SOURCE_200112 p then free ptr p
      else let raw = ptr_mem p (ptr - sizeof_ptr) in free raw p)"

text \<open>
  The bytes \<open>[a, a + n)\<close> lie inside the live block whose base is \<open>raw\<close>. Addresses and sizes
  are compared as natural numbers, so a range that runs past the end of the address space is
  not inside any block.
\<close>

definition inside_block :: "platform \<Rightarrow> pointer \<Rightarrow> pointer \<Rightarrow> 64 word \<Rightarrow> bool" where
  "inside_block p raw a n =
     (case heap_blocks p raw of
        None \<Rightarrow> False
      | Some m \<Rightarrow> unat raw \<le> unat a \<and> unat a + unat n \<le> unat raw + unat m)"

section \<open>Concrete platforms\<close>

text \<open>
  Four environments on which the functions are evaluated below. In \<open>example_platform\<close> both
  clocks read 0 s for the first three calls of \<^verbatim>\<open>clock_gettime\<close> and 1 s afterwards, the build has
  \<^verbatim>\<open>CLOCK_MONOTONIC_RAW\<close> and no \<^verbatim>\<open>posix_memalign\<close>, and \<^verbatim>\<open>malloc\<close> answers with the address
  \<open>0x1000\<close>. In \<open>failing_clock_platform\<close> the first call of \<^verbatim>\<open>clock_gettime\<close> reads 5 s and every
  later call fails. In \<open>interrupted_sleep_platform\<close> the clocks read 0 for the first two calls
  and 1 ms afterwards: a sleep that a signal ends after one millisecond. In
  \<open>dead_clock_platform\<close> every call of \<^verbatim>\<open>clock_gettime\<close> fails, for both clocks.
\<close>

definition stepping_clock :: "nat \<Rightarrow> clockid_t \<Rightarrow> timespec option" where
  "stepping_clock k c = Some \<lparr>tv_sec = (if k < 3 then 0 else 1), tv_nsec = 0\<rparr>"

definition failing_clock :: "nat \<Rightarrow> clockid_t \<Rightarrow> timespec option" where
  "failing_clock k c = (if k = 0 then Some \<lparr>tv_sec = 5, tv_nsec = 0\<rparr> else None)"

definition interrupted_clock :: "nat \<Rightarrow> clockid_t \<Rightarrow> timespec option" where
  "interrupted_clock k c = Some \<lparr>tv_sec = 0, tv_nsec = (if k < 2 then 0 else 1000000)\<rparr>"

definition example_platform :: platform where
  "example_platform =
     \<lparr>HAS_CLOCK_MONOTONIC_RAW = True, POSIX_C_SOURCE_200112 = False,
      clock_result = stepping_clock, clock_calls = 0, nanosleep_log = [],
      malloc_result = (\<lambda>k n. 4096), posix_memalign_result = (\<lambda>k a n. (12, 0)),
      heap_calls = 0, heap_blocks = Map.empty, ptr_mem = (\<lambda>a. 0)\<rparr>"

definition failing_clock_platform :: platform where
  "failing_clock_platform = example_platform\<lparr>clock_result := failing_clock\<rparr>"

definition interrupted_sleep_platform :: platform where
  "interrupted_sleep_platform = example_platform\<lparr>clock_result := interrupted_clock\<rparr>"

definition dead_clock_platform :: platform where
  "dead_clock_platform = example_platform\<lparr>clock_result := (\<lambda>k c. None)\<rparr>"

section \<open>The interrupt-nesting counter\<close>

lemma irq_run_append: "irq_run (xs @ ys) g = irq_run ys (irq_run xs g)"
  by (induction xs arbitrary: g) simp_all

lemma irq_step_counter_only:
  "irq_step c g = g\<lparr>g_interrupt_nesting := g_interrupt_nesting (irq_step c g)\<rparr>"
  by (cases c)
     (simp_all add: hal_disable_interrupts_def hal_restore_interrupts_def
        hal_enter_critical_def hal_exit_critical_def)

lemma irq_run_counter_only:
  "irq_run cs g = g\<lparr>g_interrupt_nesting := g_interrupt_nesting (irq_run cs g)\<rparr>"
proof (induction cs arbitrary: g)
  case Nil
  show ?case by simp
next
  case (Cons c cs)
  have "irq_run (c # cs) g = irq_run cs (irq_step c g)" by simp
  also have "\<dots> = (irq_step c g)\<lparr>g_interrupt_nesting := g_interrupt_nesting (irq_run cs (irq_step c g))\<rparr>"
    by (rule Cons.IH)
  also have "\<dots> = g\<lparr>g_interrupt_nesting := g_interrupt_nesting (irq_run cs (irq_step c g))\<rparr>"
    by (subst irq_step_counter_only) simp
  finally show ?case by simp
qed

lemma step_disable_unat:
  "is_disable c \<Longrightarrow> unat (g_interrupt_nesting g) + 1 < 2 ^ 32 \<Longrightarrow>
   unat (g_interrupt_nesting (irq_step c g)) = unat (g_interrupt_nesting g) + 1"
  by (cases c) (simp_all add: hal_disable_interrupts_def hal_enter_critical_def unat_word_ariths)

lemma step_restore_unat:
  "\<not> is_disable c \<Longrightarrow>
   unat (g_interrupt_nesting (irq_step c g)) = unat (g_interrupt_nesting g) - 1"
  by (cases c)
     (auto simp add: hal_restore_interrupts_def hal_exit_critical_def unat_minus_one
        word_greater_zero_iff)

lemma well_nested_iff:
  "well_nested n cs \<longleftrightarrow>
     (\<forall>k\<le>length cs. restores (take k cs) \<le> n + disables (take k cs)
         \<and> n + disables (take k cs) < 2 ^ 32 + restores (take k cs))"
  by (auto simp add: well_nested_def list_all_iff less_Suc_eq_le)

lemma well_nested_butlast: "well_nested n (cs @ [c]) \<Longrightarrow> well_nested n cs"
  unfolding well_nested_iff
proof (intro allI impI)
  fix k assume a: "\<forall>k\<le>length (cs @ [c]). restores (take k (cs @ [c])) \<le> n + disables (take k (cs @ [c]))
         \<and> n + disables (take k (cs @ [c])) < 2 ^ 32 + restores (take k (cs @ [c]))" and k: "k \<le> length cs"
  from k have "take k (cs @ [c]) = take k cs" by simp
  with a k show "restores (take k cs) \<le> n + disables (take k cs)
         \<and> n + disables (take k cs) < 2 ^ 32 + restores (take k cs)"
    by (metis le_SucI length_append_singleton)
qed

lemma well_nested_whole:
  "well_nested n cs \<Longrightarrow> restores cs \<le> n + disables cs \<and> n + disables cs < 2 ^ 32 + restores cs"
  unfolding well_nested_iff by (drule spec [of _ "length cs"]) simp

lemma counter_after_run:
  "well_nested (unat (g_interrupt_nesting g)) cs \<Longrightarrow>
   unat (g_interrupt_nesting (irq_run cs g)) + restores cs
     = unat (g_interrupt_nesting g) + disables cs"
proof (induction cs rule: rev_induct)
  case Nil
  show ?case by (simp add: restores_def disables_def)
next
  case (snoc c cs)
  let ?n = "unat (g_interrupt_nesting g)"
  let ?g' = "irq_run cs g"
  have ih: "unat (g_interrupt_nesting ?g') + restores cs = ?n + disables cs"
    using snoc.IH well_nested_butlast [OF snoc.prems] by simp
  have whole: "restores (cs @ [c]) \<le> ?n + disables (cs @ [c])
      \<and> ?n + disables (cs @ [c]) < 2 ^ 32 + restores (cs @ [c])"
    using well_nested_whole [OF snoc.prems] .
  have run: "irq_run (cs @ [c]) g = irq_step c ?g'"
    by (simp add: irq_run_append)
  show ?case
  proof (cases "is_disable c")
    case True
    then have cnt: "disables (cs @ [c]) = disables cs + 1" "restores (cs @ [c]) = restores cs"
      by (simp_all add: disables_def restores_def)
    with whole ih have "unat (g_interrupt_nesting ?g') + 1 < 2 ^ 32" by linarith
    from step_disable_unat [OF True this] ih cnt run show ?thesis by simp
  next
    case False
    then have cnt: "disables (cs @ [c]) = disables cs" "restores (cs @ [c]) = restores cs + 1"
      by (simp_all add: disables_def restores_def)
    with whole ih have "0 < unat (g_interrupt_nesting ?g')" by linarith
    with step_restore_unat [OF False, of ?g'] ih cnt run show ?thesis by simp
  qed
qed

lemma balanced_run_restores_globals:
  assumes "well_nested (unat (g_interrupt_nesting g)) cs" and "disables cs = restores cs"
  shows "irq_run cs g = g"
proof -
  from counter_after_run [OF assms(1)] assms(2)
  have "unat (g_interrupt_nesting (irq_run cs g)) = unat (g_interrupt_nesting g)" by simp
  then have "g_interrupt_nesting (irq_run cs g) = g_interrupt_nesting g" by (simp add: word_unat_eq_iff)
  with irq_run_counter_only [of cs g] show ?thesis by simp
qed

lemma irq_step_as_raw: "irq_step (as_raw c) g = irq_step c g"
  by (cases c) (simp_all add: hal_enter_critical_def hal_exit_critical_def)

lemma irq_run_as_raw: "irq_run (map as_raw cs) g = irq_run cs g"
  by (induction cs arbitrary: g) (simp_all add: irq_step_as_raw)

lemma enter_exit_noop:
  "g_interrupt_nesting g \<noteq> - 1 \<Longrightarrow> hal_exit_critical (hal_enter_critical g) = g"
proof -
  assume "g_interrupt_nesting g \<noteq> - 1"
  then have "g_interrupt_nesting g + 1 \<noteq> 0"
    by (simp add: eq_neg_iff_add_eq_0)
  then show ?thesis
    by (simp add: hal_enter_critical_def hal_exit_critical_def hal_disable_interrupts_def
        hal_restore_interrupts_def word_greater_zero_iff)
qed

text \<open>
  Claim C1. The counter starts at 0. \<^verbatim>\<open>hal_disable_interrupts\<close> returns the value before the call
  and adds one to the counter, modulo \<open>2 ^ 32\<close>. \<^verbatim>\<open>hal_restore_interrupts\<close> takes one off the
  counter when it is positive and leaves a zero counter alone, so the counter, read as a
  natural number, goes down by one and never below zero. Every sequence of calls with as
  many disables as restores that is well nested from the current depth (no restore issued
  at depth zero, no disable at depth \<open>2 ^ 32 - 1\<close>) leaves the globals as it found them.
\<close>

theorem interrupt_nesting_counter:
  "g_interrupt_nesting hal_globals_init = 0
   \<and> hal_disable_interrupts g
        = (g_interrupt_nesting g, g\<lparr>g_interrupt_nesting := g_interrupt_nesting g + 1\<rparr>)
   \<and> hal_restore_interrupts state g
        = g\<lparr>g_interrupt_nesting := (if 0 < g_interrupt_nesting g then g_interrupt_nesting g - 1 else 0)\<rparr>
   \<and> unat (g_interrupt_nesting (hal_restore_interrupts state g)) = unat (g_interrupt_nesting g) - 1
   \<and> (well_nested (unat (g_interrupt_nesting g)) cs \<and> disables cs = restores cs
        \<longrightarrow> irq_run cs g = g)"
proof -
  have r: "hal_restore_interrupts state g
        = g\<lparr>g_interrupt_nesting := (if 0 < g_interrupt_nesting g then g_interrupt_nesting g - 1 else 0)\<rparr>"
    by (simp add: hal_restore_interrupts_def word_greater_zero_iff)
  have u: "unat (g_interrupt_nesting (hal_restore_interrupts state g)) = unat (g_interrupt_nesting g) - 1"
    using step_restore_unat [of "Restore state" g] by simp
  show ?thesis
    using r u balanced_run_restores_globals [of g cs]
    by (simp add: hal_globals_init_def hal_disable_interrupts_def)
qed

theorem interrupt_nesting_counter_witness:
  "well_nested 0 [Disable, Restore 5, Disable, Disable, Restore 0, Restore 1]
   \<and> disables [Disable, Restore 5, Disable, Disable, Restore 0, Restore 1] = 3
   \<and> restores [Disable, Restore 5, Disable, Disable, Restore 0, Restore 1] = 3
   \<and> irq_run [Disable, Restore 5, Disable, Disable, Restore 0, Restore 1] hal_globals_init
       = hal_globals_init"
proof -
  have w: "well_nested 0 [Disable, Restore 5, Disable, Disable, Restore 0, Restore 1]"
    by (simp add: well_nested_def disables_def restores_def upt_rec)
  have d: "disables [Disable, Restore 5, Disable, Disable, Restore 0, Restore 1] = 3"
     "restores [Disable, Restore 5, Disable, Disable, Restore 0, Restore 1] = 3"
    by (simp_all add: disables_def restores_def)
  have z: "unat (g_interrupt_nesting hal_globals_init) = 0" by (simp add: hal_globals_init_def)
  from w z have w': "well_nested (unat (g_interrupt_nesting hal_globals_init))
      [Disable, Restore 5, Disable, Disable, Restore 0, Restore 1]" by simp
  from d have e: "disables [Disable, Restore 5, Disable, Disable, Restore 0, Restore 1]
      = restores [Disable, Restore 5, Disable, Disable, Restore 0, Restore 1]" by simp
  from interrupt_nesting_counter [of hal_globals_init 0 "[Disable, Restore 5, Disable, Disable, Restore 0, Restore 1]"]
    w' e
  have "irq_run [Disable, Restore 5, Disable, Disable, Restore 0, Restore 1] hal_globals_init
       = hal_globals_init" by blast
  with w d show ?thesis by blast
qed

text \<open>
  Not every interleaving of N disables and N restores brings the counter back (claim C1 as
  stated): a restore issued at depth zero is dropped, and the disable after it is left
  unmatched.
\<close>

theorem unmatched_restore_counterexample:
  "disables [Restore 0, Disable] = 1 \<and> restores [Restore 0, Disable] = 1
   \<and> g_interrupt_nesting hal_globals_init = 0
   \<and> g_interrupt_nesting (irq_run [Restore 0, Disable] hal_globals_init) = 1"
  by (simp add: disables_def restores_def hal_globals_init_def hal_disable_interrupts_def
      hal_restore_interrupts_def)

text \<open>
  Claim C6. \<^verbatim>\<open>hal_restore_interrupts\<close> does not look at its argument: any two tokens give the
  same globals.
\<close>

theorem hal_restore_interrupts_ignores_token:
  "hal_restore_interrupts t1 g = hal_restore_interrupts t2 g"
  by (simp add: hal_restore_interrupts_def)

text \<open>
  Claim C7. \<^verbatim>\<open>hal_enter_critical\<close> acts on the globals as \<^verbatim>\<open>hal_disable_interrupts\<close> does, adding
  one to the counter; \<^verbatim>\<open>hal_exit_critical\<close> is \<^verbatim>\<open>hal_restore_interrupts(0)\<close>; entering and leaving a
  critical section restores the globals whenever the counter is below its maximum
  \<open>2 ^ 32 - 1\<close>; and in any sequence of calls the wrappers can be replaced by the raw calls
  they make, so the two kinds of call nest with each other.
\<close>

theorem critical_section_wrappers:
  "hal_enter_critical g = snd (hal_disable_interrupts g)
   \<and> g_interrupt_nesting (hal_enter_critical g) = g_interrupt_nesting g + 1
   \<and> hal_exit_critical g = hal_restore_interrupts 0 g
   \<and> (g_interrupt_nesting g \<noteq> 0xFFFFFFFF \<longrightarrow> hal_exit_critical (hal_enter_critical g) = g)
   \<and> irq_run cs g = irq_run (map as_raw cs) g"
proof -
  have m: "(0xFFFFFFFF :: 32 word) = - 1" by simp
  have "g_interrupt_nesting g \<noteq> 0xFFFFFFFF \<Longrightarrow> hal_exit_critical (hal_enter_critical g) = g"
    unfolding m by (rule enter_exit_noop)
  then show ?thesis
    by (simp add: irq_run_as_raw hal_enter_critical_def hal_exit_critical_def hal_disable_interrupts_def)
qed

theorem critical_section_wrappers_witness:
  "hal_exit_critical (hal_enter_critical (hal_globals_init\<lparr>g_interrupt_nesting := 2\<rparr>))
     = hal_globals_init\<lparr>g_interrupt_nesting := 2\<rparr>
   \<and> irq_run [EnterCritical, Disable, ExitCritical, Restore 9] hal_globals_init
       = irq_run [Disable, Disable, Restore 0, Restore 9] hal_globals_init
   \<and> irq_run [EnterCritical, Disable, ExitCritical, Restore 9] hal_globals_init = hal_globals_init"
proof -
  let ?g = "hal_globals_init\<lparr>g_interrupt_nesting := 2\<rparr>"
  let ?cs = "[EnterCritical, Disable, ExitCritical, Restore 9]"
  have "g_interrupt_nesting ?g \<noteq> 0xFFFFFFFF" by simp
  with critical_section_wrappers [of ?g "[]"]
  have a: "hal_exit_critical (hal_enter_critical ?g) = ?g" by blast
  from critical_section_wrappers [of hal_globals_init ?cs]
  have "irq_run ?cs hal_globals_init = irq_run (map as_raw ?cs) hal_globals_init" by blast
  then have b: "irq_run ?cs hal_globals_init
      = irq_run [Disable, Disable, Restore 0, Restore 9] hal_globals_init" by simp
  have c: "irq_run [Disable, Disable, Restore 0, Restore 9] hal_globals_init = hal_globals_init"
    by (simp add: hal_globals_init_def hal_disable_interrupts_def hal_restore_interrupts_def)
  from a b c show ?thesis by simp
qed

text \<open>
  At the maximum of the counter the pair is not a no-op (claim C7 as stated): entering wraps
  the counter to 0 and leaving finds nothing to take off.
\<close>

theorem critical_section_wrap_counterexample:
  "g_interrupt_nesting (hal_exit_critical (hal_enter_critical
       (hal_globals_init\<lparr>g_interrupt_nesting := 0xFFFFFFFF\<rparr>))) = 0
   \<and> g_interrupt_nesting (hal_globals_init\<lparr>g_interrupt_nesting := 0xFFFFFFFF\<rparr>) = 0xFFFFFFFF"
  by (simp add: hal_globals_init_def hal_disable_interrupts_def hal_restore_interrupts_def
      hal_enter_critical_def hal_exit_critical_def)

section \<open>Properties of the timer and DMA functions\<close>

text \<open>
  Claim C4. \<^verbatim>\<open>hal_timer_init\<close> and \<^verbatim>\<open>hal_dma_init\<close> return \<^verbatim>\<open>HAL_INVALID_PARAM\<close> exactly for the null
  configuration; for a non-null configuration both return \<^verbatim>\<open>HAL_OK\<close>, whatever the channel id.
\<close>

theorem init_rejects_only_null:
  "(hal_timer_init timer_id config = HAL_INVALID_PARAM) = (config = NULL)
   \<and> (hal_dma_init dma_id config = HAL_INVALID_PARAM) = (config = NULL)
   \<and> (config \<noteq> NULL \<longrightarrow> hal_timer_init timer_id config = HAL_OK \<and> hal_dma_init dma_id config = HAL_OK)"
  by (simp add: hal_timer_init_def hal_dma_init_def)

theorem init_rejects_only_null_witness:
  "hal_timer_init 255 4096 = HAL_OK \<and> hal_dma_init 255 4096 = HAL_OK
   \<and> hal_timer_init 0 4096 = HAL_OK \<and> hal_dma_init 0 4096 = HAL_OK
   \<and> hal_timer_init 255 NULL = HAL_INVALID_PARAM \<and> hal_dma_init 255 NULL = HAL_INVALID_PARAM"
  using init_rejects_only_null [of 255 4096 255] init_rejects_only_null [of 0 4096 0]
    init_rejects_only_null [of 255 0 255]
  by simp

text \<open>
  Claim C9. With a null output pointer \<^verbatim>\<open>hal_timer_get_counter\<close> returns \<^verbatim>\<open>HAL_INVALID_PARAM\<close> and
  leaves the memory as it was; with a non-null pointer it returns \<^verbatim>\<open>HAL_OK\<close> and the memory
  differs only in the object the pointer names, which holds 0. The timer id plays no role.
\<close>

theorem hal_timer_get_counter_result:
  "hal_timer_get_counter timer_id NULL mem = (HAL_INVALID_PARAM, mem)
   \<and> (counter \<noteq> NULL \<longrightarrow>
        hal_timer_get_counter timer_id counter mem = (HAL_OK, mem(counter := 0))
        \<and> snd (hal_timer_get_counter timer_id counter mem) counter = 0)"
  by (simp add: hal_timer_get_counter_def)

theorem hal_timer_get_counter_result_witness:
  "hal_timer_get_counter 3 4096 (\<lambda>a. 5) = (HAL_OK, (\<lambda>a. 5)(4096 := 0))
   \<and> snd (hal_timer_get_counter 3 4096 (\<lambda>a. 5)) 4096 = 0
   \<and> snd (hal_timer_get_counter 3 4096 (\<lambda>a. 5)) 4100 = 5
   \<and> hal_timer_get_counter 3 NULL (\<lambda>a. 5) = (HAL_INVALID_PARAM, \<lambda>a. 5)"
  using hal_timer_get_counter_result [of 3 "\<lambda>a. 5" 4096]
  by simp

section \<open>Reading the clock\<close>

lemma clock_gettime_simps:
  "fst (clock_gettime c p) = clock_result p (clock_calls p) c"
  "snd (clock_gettime c p) = p\<lparr>clock_calls := clock_calls p + 1\<rparr>"
  by (simp_all add: clock_gettime_def)

lemma hal_get_timestamp_us_state:
  "snd (hal_get_timestamp_us p) = p\<lparr>clock_calls := clock_calls (snd (hal_get_timestamp_us p))\<rparr>"
  by (simp add: hal_get_timestamp_us_def hal_get_timestamp_us_fallback_def clock_gettime_def
      split: option.splits)

lemma hal_get_timestamp_us_advances:
  "clock_calls p < clock_calls (snd (hal_get_timestamp_us p))"
  by (simp add: hal_get_timestamp_us_def hal_get_timestamp_us_fallback_def clock_gettime_def
      split: option.splits)

lemma fst_hal_get_timestamp_us:
  "fst (hal_get_timestamp_us p) = timestamp_at p (clock_calls p)"
  by (simp add: timestamp_at_def)

lemma timestamp_at_clock_calls [simp]:
  "timestamp_at (p\<lparr>clock_calls := n\<rparr>) k = timestamp_at p k"
  by (simp add: timestamp_at_def)

lemma timestamp_at_nanosleep [simp]:
  "timestamp_at (nanosleep req p) k = timestamp_at p k"
  by (simp add: timestamp_at_def nanosleep_def hal_get_timestamp_us_def
      hal_get_timestamp_us_fallback_def clock_gettime_def split: option.splits)

lemma hal_get_timestamp_us_eq:
  "hal_get_timestamp_us p = (t, p') \<Longrightarrow>
     t = timestamp_at p (clock_calls p) \<and> clock_calls p < clock_calls p'
     \<and> p' = p\<lparr>clock_calls := clock_calls p'\<rparr>"
  using fst_hal_get_timestamp_us [of p] hal_get_timestamp_us_advances [of p]
    hal_get_timestamp_us_state [of p] by simp

lemma hal_delay_us_loop_result:
  "hal_delay_us_loop e p = Some p' \<Longrightarrow>
     \<exists>k. clock_calls p \<le> k \<and> k < clock_calls p' \<and> e \<le> timestamp_at p k
       \<and> p' = p\<lparr>clock_calls := clock_calls p'\<rparr>"
proof (induction e p p' rule: hal_delay_us_loop.raw_induct [rotated 1, consumes 1, case_names step])
  case (step loop e p p')
  obtain t q where tq: "hal_get_timestamp_us p = (t, q)" by (cases "hal_get_timestamp_us p")
  note q = hal_get_timestamp_us_eq [OF tq]
  show ?case
  proof (cases "t < e")
    case True
    with step(2) tq have "loop e q = Some p'" by (simp add: hal_spin_hint_def)
    from step(1) [OF this] obtain k where k: "clock_calls q \<le> k" "k < clock_calls p'"
      "e \<le> timestamp_at q k" "p' = q\<lparr>clock_calls := clock_calls p'\<rparr>" by blast
    from q have qp: "q = p\<lparr>clock_calls := clock_calls q\<rparr>" by simp
    have "timestamp_at q k = timestamp_at p k" by (subst qp) simp
    moreover have "p' = p\<lparr>clock_calls := clock_calls p'\<rparr>"
      using k(4) by (subst (asm) qp) simp
    ultimately show ?thesis using k q by (intro exI [of _ k]) simp
  next
    case False
    with step(2) tq have "p' = q" by simp
    with False q show ?thesis by (intro exI [of _ "clock_calls p"]) (simp add: not_less)
  qed
qed

lemma hal_delay_us_loop_terminates:
  assumes mono: "timestamps_nondecreasing p" and reach: "e \<le> timestamp_at p k"
  shows "\<exists>p'. hal_delay_us_loop e (p\<lparr>clock_calls := n\<rparr>) = Some p'"
proof (induction "k - n" arbitrary: n rule: less_induct)
  case less
  let ?p = "p\<lparr>clock_calls := n\<rparr>"
  obtain t q where tq: "hal_get_timestamp_us ?p = (t, q)" by (cases "hal_get_timestamp_us ?p")
  from hal_get_timestamp_us_eq [OF tq]
  have t: "t = timestamp_at p n" and adv: "n < clock_calls q"
    and q: "q = p\<lparr>clock_calls := clock_calls q\<rparr>" by simp_all
  show ?case
  proof (cases "t < e")
    case False
    with tq show ?thesis by (subst hal_delay_us_loop.simps) simp
  next
    case True
    have "n < k"
    proof (rule ccontr)
      assume "\<not> n < k"
      then have "timestamp_at p k \<le> timestamp_at p n"
        using mono by (simp add: timestamps_nondecreasing_def)
      with reach t True show False by simp
    qed
    with adv have "k - clock_calls q < k - n" by simp
    from less [OF this] obtain p' where
      "hal_delay_us_loop e (p\<lparr>clock_calls := clock_calls q\<rparr>) = Some p'" by blast
    with q have "hal_delay_us_loop e q = Some p'" by simp
    with True tq show ?thesis
      by (subst hal_delay_us_loop.simps) (simp add: hal_spin_hint_def)
  qed
qed

lemma hal_delay_us_loop_returns_iff:
  assumes mono: "timestamps_nondecreasing p"
  shows "(\<exists>p'. hal_delay_us_loop e p = Some p') = clock_reaches p e"
proof
  assume "\<exists>p'. hal_delay_us_loop e p = Some p'"
  then show "clock_reaches p e"
    using hal_delay_us_loop_result unfolding clock_reaches_def by blast
next
  assume "clock_reaches p e"
  then obtain k where "e \<le> timestamp_at p k" unfolding clock_reaches_def by blast
  from hal_delay_us_loop_terminates [OF mono this, of "clock_calls p"]
  show "\<exists>p'. hal_delay_us_loop e p = Some p'" by simp
qed

lemma unat_timespec_to_us:
  assumes "tv_nsec a < 1000000000" and "tv_sec a < 18446744073709"
  shows "unat (timespec_to_us a) = unat (tv_sec a) * 1000000 + unat (tv_nsec a) div 1000"
proof -
  from assms have n: "unat (tv_nsec a) < 1000000000" and s: "unat (tv_sec a) < 18446744073709"
    by (simp_all add: word_less_nat_alt)
  have d: "unat (tv_nsec a div 1000) = unat (tv_nsec a) div 1000"
    by (simp add: unat_div)
  from s have m: "unat (tv_sec a * 1000000) = unat (tv_sec a) * 1000000"
    by (simp add: unat_word_ariths)
  from n have "unat (tv_nsec a) div 1000 < 1000000" by simp
  with s have "unat (tv_sec a) * 1000000 + unat (tv_nsec a) div 1000 < 2 ^ 64" by simp
  then show ?thesis
    unfolding timespec_to_us_def by (simp add: unat_word_ariths d m)
qed

lemma timespec_to_us_mono:
  assumes le: "timespec_le a b"
    and a: "tv_nsec a < 1000000000" "tv_sec a < 18446744073709"
    and b: "tv_nsec b < 1000000000" "tv_sec b < 18446744073709"
  shows "timespec_to_us a \<le> timespec_to_us b"
proof -
  from a(1) have na: "unat (tv_nsec a) div 1000 < 1000000"
    by (simp add: word_less_nat_alt)
  from le have "unat (tv_sec a) < unat (tv_sec b)
      \<or> (unat (tv_sec a) = unat (tv_sec b) \<and> unat (tv_nsec a) \<le> unat (tv_nsec b))"
    by (auto simp add: timespec_le_def word_less_nat_alt word_le_nat_alt)
  then have "unat (tv_sec a) * 1000000 + unat (tv_nsec a) div 1000
      \<le> unat (tv_sec b) * 1000000 + unat (tv_nsec b) div 1000"
  proof
    assume "unat (tv_sec a) < unat (tv_sec b)"
    then have "(unat (tv_sec a) + 1) * 1000000 \<le> unat (tv_sec b) * 1000000"
      by (simp only: mult_le_mono1 Suc_leI Suc_eq_plus1 [symmetric])
    with na show ?thesis by simp
  next
    assume "unat (tv_sec a) = unat (tv_sec b) \<and> unat (tv_nsec a) \<le> unat (tv_nsec b)"
    then show ?thesis by (simp add: div_le_mono)
  qed
  then show ?thesis
    by (simp add: word_le_nat_alt unat_timespec_to_us a b)
qed

text \<open>Which reading a call of \<^verbatim>\<open>hal_get_timestamp_us\<close> returns, by availability of the sources.\<close>

lemma timestamp_at_raw:
  "HAS_CLOCK_MONOTONIC_RAW p \<Longrightarrow> clock_result p k CLOCK_MONOTONIC_RAW = Some a \<Longrightarrow>
   timestamp_at p k = timespec_to_us a"
  by (simp add: timestamp_at_def hal_get_timestamp_us_def clock_gettime_def)

lemma timestamp_at_raw_failed:
  "HAS_CLOCK_MONOTONIC_RAW p \<Longrightarrow> clock_result p k CLOCK_MONOTONIC_RAW = None \<Longrightarrow>
   timestamp_at p k = (case clock_result p (Suc k) CLOCK_MONOTONIC of
                         Some a \<Rightarrow> timespec_to_us a | None \<Rightarrow> 0)"
  by (simp add: timestamp_at_def hal_get_timestamp_us_def hal_get_timestamp_us_fallback_def
      clock_gettime_def split: option.splits)

lemma timestamp_at_no_raw:
  "\<not> HAS_CLOCK_MONOTONIC_RAW p \<Longrightarrow>
   timestamp_at p k = (case clock_result p k CLOCK_MONOTONIC of
                         Some a \<Rightarrow> timespec_to_us a | None \<Rightarrow> 0)"
  by (simp add: timestamp_at_def hal_get_timestamp_us_def hal_get_timestamp_us_fallback_def
      clock_gettime_def split: option.splits)

lemma readings_mono:
  assumes "clock_nondecreasing p" "clock_in_range p" "i \<le> j"
    "clock_result p i c = Some a" "clock_result p j c = Some b"
  shows "timespec_to_us a \<le> timespec_to_us b"
proof -
  from assms have "timespec_le a b" unfolding clock_nondecreasing_def by blast
  moreover from assms have "tv_nsec a < 1000000000" "tv_sec a < 18446744073709"
     "tv_nsec b < 1000000000" "tv_sec b < 18446744073709"
    unfolding clock_in_range_def by blast+
  ultimately show ?thesis by (rule timespec_to_us_mono)
qed

lemma timestamps_nondecreasing_of_clock:
  assumes nd: "clock_nondecreasing p" and rg: "clock_in_range p" and st: "clock_sources_stable p"
  shows "timestamps_nondecreasing p"
  unfolding timestamps_nondecreasing_def
proof (intro allI impI)
  fix i j :: nat assume ij: "i \<le> j"
  have stable: "\<And>c i j. clock_result p i c = None \<Longrightarrow> clock_result p j c = None"
    using st unfolding clock_sources_stable_def by blast
  show "timestamp_at p i \<le> timestamp_at p j"
  proof (cases "HAS_CLOCK_MONOTONIC_RAW p")
    case raw: True
    show ?thesis
    proof (cases "clock_result p i CLOCK_MONOTONIC_RAW")
      case (Some a)
      then obtain b where b: "clock_result p j CLOCK_MONOTONIC_RAW = Some b"
        using stable [of j CLOCK_MONOTONIC_RAW i] by (cases "clock_result p j CLOCK_MONOTONIC_RAW") auto
      from readings_mono [OF nd rg ij Some b] show ?thesis
        by (simp add: timestamp_at_raw [OF raw Some] timestamp_at_raw [OF raw b])
    next
      case None
      then have nj: "clock_result p j CLOCK_MONOTONIC_RAW = None" by (rule stable)
      show ?thesis
      proof (cases "clock_result p (Suc i) CLOCK_MONOTONIC")
        case n2: None
        then show ?thesis by (simp add: timestamp_at_raw_failed [OF raw None])
      next
        case (Some a)
        then obtain b where b: "clock_result p (Suc j) CLOCK_MONOTONIC = Some b"
          using stable [of "Suc j" CLOCK_MONOTONIC "Suc i"]
          by (cases "clock_result p (Suc j) CLOCK_MONOTONIC") auto
        from ij have "Suc i \<le> Suc j" by simp
        from readings_mono [OF nd rg this Some b] show ?thesis
          by (simp add: timestamp_at_raw_failed [OF raw None] timestamp_at_raw_failed [OF raw nj] Some b)
      qed
    qed
  next
    case noraw: False
    show ?thesis
    proof (cases "clock_result p i CLOCK_MONOTONIC")
      case None
      then show ?thesis by (simp add: timestamp_at_no_raw [OF noraw])
    next
      case (Some a)
      then obtain b where b: "clock_result p j CLOCK_MONOTONIC = Some b"
        using stable [of j CLOCK_MONOTONIC i] by (cases "clock_result p j CLOCK_MONOTONIC") auto
      from readings_mono [OF nd rg ij Some b] show ?thesis
        by (simp add: timestamp_at_no_raw [OF noraw] Some b)
    qed
  qed
qed

lemma timestamp_at_cong:
  "HAS_CLOCK_MONOTONIC_RAW q = HAS_CLOCK_MONOTONIC_RAW p \<Longrightarrow> clock_result q = clock_result p \<Longrightarrow>
   timestamp_at q k = timestamp_at p k"
  by (simp add: timestamp_at_def hal_get_timestamp_us_def hal_get_timestamp_us_fallback_def
      clock_gettime_def split: option.splits)

lemma ucast_le_diff:
  fixes t1 start t2 :: "64 word" and D :: "32 word"
  assumes "t1 \<le> start" "unat start + unat D < 2 ^ 64" "start + ucast D \<le> t2"
  shows "ucast D \<le> t2 - t1"
proof -
  have "unat D < 2 ^ 32" using unsigned_less [of D] by simp
  then have "unat D < 2 ^ 64" by simp
  then have uD: "unat (ucast D :: 64 word) = unat D"
    by (simp add: unsigned_ucast_eq take_bit_nat_eq_self)
  from assms(2) have s: "unat (start + ucast D) = unat start + unat D"
    by (simp add: unat_word_ariths uD)
  from assms(3) s have a: "unat start + unat D \<le> unat t2" by (simp add: word_le_nat_alt)
  from assms(1) have b: "unat t1 \<le> unat start" by (simp add: word_le_nat_alt)
  from a b have "t1 \<le> t2" by (simp add: word_le_nat_alt)
  then have "unat (t2 - t1) = unat t2 - unat t1" by (simp add: unat_sub)
  with a b show ?thesis by (simp add: word_le_nat_alt uD)
qed

lemma hal_delay_us_sleep:
  "10000 < D \<Longrightarrow> hal_get_timestamp_us p = (start, p') \<Longrightarrow>
   hal_delay_us D p = Some (nanosleep \<lparr>tv_sec = ucast (D div 1000000),
                                      tv_nsec = ucast ((D mod 1000000) * 1000)\<rparr> p')"
  by (simp add: hal_delay_us_def)

lemma hal_delay_us_busy:
  "D \<le> 10000 \<Longrightarrow> hal_get_timestamp_us p = (start, p') \<Longrightarrow>
   hal_delay_us D p = hal_delay_us_loop (start + ucast D) p'"
  by (simp add: hal_delay_us_def not_less [symmetric])

lemma timestamps_nondecreasing_clock_calls [simp]:
  "timestamps_nondecreasing (p\<lparr>clock_calls := n\<rparr>) = timestamps_nondecreasing p"
  by (simp add: timestamps_nondecreasing_def)

lemma clock_reaches_clock_calls [simp]:
  "clock_reaches (p\<lparr>clock_calls := n\<rparr>) e = clock_reaches p e"
  by (simp add: clock_reaches_def)

lemma hal_delay_us_returns:
  assumes "hal_get_timestamp_us p = (start, p')"
  shows "(10000 < D \<longrightarrow> (\<exists>q. hal_delay_us D p = Some q))
       \<and> (D \<le> 10000 \<and> timestamps_nondecreasing p \<and> clock_reaches p (start + ucast D)
            \<longrightarrow> (\<exists>q. hal_delay_us D p = Some q))"
proof -
  from hal_get_timestamp_us_eq [OF assms] have p': "p' = p\<lparr>clock_calls := clock_calls p'\<rparr>" by simp
  have "timestamps_nondecreasing p' = timestamps_nondecreasing p"
    "clock_reaches p' (start + ucast D) = clock_reaches p (start + ucast D)"
    by (subst p', simp)+
  then show ?thesis
    using hal_delay_us_loop_returns_iff [of p' "start + ucast D"]
    by (auto simp add: hal_delay_us_sleep [OF _ assms] hal_delay_us_busy [OF _ assms])
qed

lemma example_timestamp_at:
  "timestamp_at example_platform k = (if k < 3 then 0 else 1000000)"
  by (simp add: timestamp_at_def hal_get_timestamp_us_def clock_gettime_def example_platform_def
      stepping_clock_def timespec_to_us_def)

lemma example_clock:
  "clock_nondecreasing example_platform" "clock_in_range example_platform"
  "clock_sources_stable example_platform"
  by (auto simp add: clock_nondecreasing_def clock_in_range_def clock_sources_stable_def
      example_platform_def stepping_clock_def timespec_le_def)

lemma example_timestamps: "timestamps_nondecreasing example_platform"
  by (simp add: timestamps_nondecreasing_def example_timestamp_at)

lemma example_reaches: "clock_reaches example_platform 5000"
  unfolding clock_reaches_def by (rule exI [of _ 3]) (simp add: example_timestamp_at)

lemma example_reads:
  "hal_get_timestamp_us (example_platform\<lparr>clock_calls := k\<rparr>)
     = (if k < 3 then 0 else 1000000, example_platform\<lparr>clock_calls := k + 1\<rparr>)"
  by (simp add: hal_get_timestamp_us_def clock_gettime_def example_platform_def
      stepping_clock_def timespec_to_us_def)

lemma example_read0:
  "hal_get_timestamp_us example_platform = (0, example_platform\<lparr>clock_calls := 1\<rparr>)"
  by (simp add: hal_get_timestamp_us_def clock_gettime_def example_platform_def
      stepping_clock_def timespec_to_us_def)

section \<open>Properties of the timing functions\<close>

text \<open>
  Claim C8, as the code has it. \<^verbatim>\<open>hal_get_timestamp_us\<close> is monotonic non-decreasing when the
  same clock source answers both calls: if each clock never runs backwards, its readings are
  normalised and below the range where the conversion to microseconds wraps, and a source
  that answers once answers always, then a call that starts after another has completed
  returns a timestamp at least as large.
\<close>

theorem hal_get_timestamp_us_monotonic:
  assumes clocks: "clock_nondecreasing p" "clock_in_range p" "clock_sources_stable p"
    and first: "hal_get_timestamp_us p = (t1, p1)"
    and same: "HAS_CLOCK_MONOTONIC_RAW q = HAS_CLOCK_MONOTONIC_RAW p" "clock_result q = clock_result p"
    and later: "clock_calls p1 \<le> clock_calls q"
    and second: "hal_get_timestamp_us q = (t2, q')"
  shows "t1 \<le> t2"
proof -
  from hal_get_timestamp_us_eq [OF first]
  have t1: "t1 = timestamp_at p (clock_calls p)" and adv: "clock_calls p < clock_calls p1" by simp_all
  from hal_get_timestamp_us_eq [OF second] timestamp_at_cong [OF same]
  have t2: "t2 = timestamp_at p (clock_calls q)" by simp
  from adv later have "clock_calls p \<le> clock_calls q" by simp
  with timestamps_nondecreasing_of_clock [OF clocks] show ?thesis
    unfolding t1 t2 timestamps_nondecreasing_def by blast
qed

theorem hal_get_timestamp_us_monotonic_witness:
  "clock_nondecreasing example_platform \<and> clock_in_range example_platform
   \<and> clock_sources_stable example_platform
   \<and> hal_get_timestamp_us example_platform = (0, example_platform\<lparr>clock_calls := 1\<rparr>)
   \<and> hal_get_timestamp_us (example_platform\<lparr>clock_calls := 3\<rparr>)
        = (1000000, example_platform\<lparr>clock_calls := 4\<rparr>)
   \<and> (0 :: 64 word) \<le> 1000000"
  using hal_get_timestamp_us_monotonic [OF example_clock example_read0, of "example_platform\<lparr>clock_calls := 3\<rparr>" 1000000
      "example_platform\<lparr>clock_calls := 4\<rparr>"]
  by (simp add: example_clock example_read0 example_reads)

text \<open>
  Across the fallback chain the order is lost. On \<open>failing_clock_platform\<close> every clock
  reading is non-decreasing and in range, the first call returns 5000000 from
  \<^verbatim>\<open>CLOCK_MONOTONIC_RAW\<close>, and the second call, for which both sources fail, returns the
  sentinel 0.
\<close>

theorem hal_get_timestamp_us_fallback_counterexample:
  "clock_nondecreasing failing_clock_platform \<and> clock_in_range failing_clock_platform
   \<and> fst (hal_get_timestamp_us failing_clock_platform) = 5000000
   \<and> fst (hal_get_timestamp_us (snd (hal_get_timestamp_us failing_clock_platform))) = 0
   \<and> \<not> fst (hal_get_timestamp_us failing_clock_platform)
         \<le> fst (hal_get_timestamp_us (snd (hal_get_timestamp_us failing_clock_platform)))"
proof -
  have a: "clock_nondecreasing failing_clock_platform"
    by (auto simp add: clock_nondecreasing_def failing_clock_platform_def failing_clock_def
        timespec_le_def split: if_splits)
  have b: "clock_in_range failing_clock_platform"
    by (auto simp add: clock_in_range_def failing_clock_platform_def failing_clock_def
        split: if_splits)
  have c: "hal_get_timestamp_us failing_clock_platform
             = (5000000, failing_clock_platform\<lparr>clock_calls := 1\<rparr>)"
    by (simp add: hal_get_timestamp_us_def clock_gettime_def failing_clock_platform_def
        example_platform_def failing_clock_def timespec_to_us_def)
  have d: "hal_get_timestamp_us (failing_clock_platform\<lparr>clock_calls := 1\<rparr>)
             = (0, failing_clock_platform\<lparr>clock_calls := 3\<rparr>)"
    by (simp add: hal_get_timestamp_us_def hal_get_timestamp_us_fallback_def clock_gettime_def
        failing_clock_platform_def example_platform_def failing_clock_def numeral_2_eq_2 [symmetric])
  show ?thesis using a b c d by simp
qed

text \<open>
  The busy-wait branch of \<^verbatim>\<open>hal_delay_us\<close> keeps the deadline. Let \<open>t1\<close> be sampled immediately
  before \<^verbatim>\<open>hal_delay_us(D)\<close> with \<open>D \<le> 10000\<close> and let \<open>start\<close> be the reading the call takes on
  entry. When the timestamps are non-decreasing and \<open>start + D\<close> does not wrap, the call returns
  exactly when the clock reaches \<open>start + D\<close>, and a timestamp sampled immediately after it is
  at least \<open>D\<close> above \<open>t1\<close>.
\<close>

lemma hal_delay_us_busy_poll:
  assumes before: "hal_get_timestamp_us p = (t1, p1)"
      and start: "hal_get_timestamp_us p1 = (start, p1')"
  shows "D \<le> 10000 \<and> timestamps_nondecreasing p \<and> unat start + unat D < 2 ^ 64 \<longrightarrow>
            ((\<exists>p2. hal_delay_us D p1 = Some p2) = clock_reaches p (start + ucast D))
          \<and> (\<forall>p2. hal_delay_us D p1 = Some p2 \<longrightarrow> ucast D \<le> fst (hal_get_timestamp_us p2) - t1)"
proof (intro conjI impI allI)
  assume h: "D \<le> 10000 \<and> timestamps_nondecreasing p \<and> unat start + unat D < 2 ^ 64"
  from hal_get_timestamp_us_eq [OF before]
  have p1: "p1 = p\<lparr>clock_calls := clock_calls p1\<rparr>" by simp
  from hal_get_timestamp_us_eq [OF start]
  have p1': "p1' = p1\<lparr>clock_calls := clock_calls p1'\<rparr>" by simp
  have p1'p: "p1' = p\<lparr>clock_calls := clock_calls p1'\<rparr>"
    by (subst p1', subst p1) simp
  have "timestamps_nondecreasing p1'" "clock_reaches p1' (start + ucast D) = clock_reaches p (start + ucast D)"
    using h by (subst p1'p, simp)+
  then show "(\<exists>p2. hal_delay_us D p1 = Some p2) = clock_reaches p (start + ucast D)"
    using h hal_delay_us_loop_returns_iff [of p1' "start + ucast D"]
    by (simp add: hal_delay_us_busy [OF _ start])
next
  fix p2
  assume h: "D \<le> 10000 \<and> timestamps_nondecreasing p \<and> unat start + unat D < 2 ^ 64"
    and ret: "hal_delay_us D p1 = Some p2"
  from h have mono: "\<And>i j. i \<le> j \<Longrightarrow> timestamp_at p i \<le> timestamp_at p j"
    by (simp add: timestamps_nondecreasing_def)
  from hal_get_timestamp_us_eq [OF before]
  have t1: "t1 = timestamp_at p (clock_calls p)" and c1: "clock_calls p < clock_calls p1"
    and p1: "p1 = p\<lparr>clock_calls := clock_calls p1\<rparr>" by simp_all
  from hal_get_timestamp_us_eq [OF start]
  have s0: "start = timestamp_at p1 (clock_calls p1)" and p1': "p1' = p1\<lparr>clock_calls := clock_calls p1'\<rparr>"
    by simp_all
  have p1'p: "p1' = p\<lparr>clock_calls := clock_calls p1'\<rparr>"
    by (subst p1', subst p1) simp
  have s: "start = timestamp_at p (clock_calls p1)"
    using s0 by (subst (asm) p1) simp
  from ret h have "hal_delay_us_loop (start + ucast D) p1' = Some p2"
    by (simp add: hal_delay_us_busy [OF _ start])
  from hal_delay_us_loop_result [OF this] obtain k where
    k: "k < clock_calls p2" "start + ucast D \<le> timestamp_at p1' k"
    and p2: "p2 = p1'\<lparr>clock_calls := clock_calls p2\<rparr>" by blast
  have tk: "timestamp_at p1' k = timestamp_at p k" by (subst p1'p) simp
  have p2p: "p2 = p\<lparr>clock_calls := clock_calls p2\<rparr>"
    by (subst p2, subst p1'p) simp
  have "fst (hal_get_timestamp_us p2) = timestamp_at p2 (clock_calls p2)"
    by (rule fst_hal_get_timestamp_us)
  also have "\<dots> = timestamp_at p (clock_calls p2)" by (subst p2p) simp
  finally have t2: "fst (hal_get_timestamp_us p2) = timestamp_at p (clock_calls p2)" .
  have "timestamp_at p k \<le> timestamp_at p (clock_calls p2)" using k(1) by (intro mono) simp
  with k(2) tk have e: "start + ucast D \<le> fst (hal_get_timestamp_us p2)" by (simp add: t2)
  have "t1 \<le> start" unfolding t1 s using c1 by (intro mono) simp
  from ucast_le_diff [OF this _ e] h
  show "ucast D \<le> fst (hal_get_timestamp_us p2) - t1" by simp
qed

text \<open>
  Claim C2. Timestamps sampled immediately before and after \<^verbatim>\<open>hal_delay_us(D)\<close> are to be at least
  \<open>D\<close> apart, in the sleep branch too. The sleep branch computes the deadline \<^verbatim>\<open>end\<close> and then
  does not use it: it calls \<^verbatim>\<open>nanosleep\<close> once, drops the return value and returns. On
  \<open>interrupted_sleep_platform\<close>, where the sleep ends after one millisecond and the clock never
  runs backwards, \<^verbatim>\<open>hal_delay_us(20000)\<close> returns after its one request of 20000000 ns, and a
  timestamp sampled immediately after the call is 1000 microseconds above the one sampled
  immediately before it, not 20000.
\<close>

theorem hal_delay_us_interrupted_sleep:
  "hal_get_timestamp_us interrupted_sleep_platform
        = (0, interrupted_sleep_platform\<lparr>clock_calls := 1\<rparr>)
   \<and> hal_delay_us 20000 (interrupted_sleep_platform\<lparr>clock_calls := 1\<rparr>)
        = Some (nanosleep \<lparr>tv_sec = 0, tv_nsec = 20000000\<rparr>
                  (interrupted_sleep_platform\<lparr>clock_calls := 2\<rparr>))
   \<and> fst (hal_get_timestamp_us (nanosleep \<lparr>tv_sec = 0, tv_nsec = 20000000\<rparr>
                  (interrupted_sleep_platform\<lparr>clock_calls := 2\<rparr>))) - 0 = 1000
   \<and> (1000 :: 64 word) < 20000"
proof -
  have b: "hal_get_timestamp_us interrupted_sleep_platform
        = (0, interrupted_sleep_platform\<lparr>clock_calls := 1\<rparr>)"
    by (simp add: hal_get_timestamp_us_def clock_gettime_def
        interrupted_sleep_platform_def example_platform_def interrupted_clock_def timespec_to_us_def)
  have c: "hal_delay_us 20000 (interrupted_sleep_platform\<lparr>clock_calls := 1\<rparr>)
        = Some (nanosleep \<lparr>tv_sec = 0, tv_nsec = 20000000\<rparr>
                  (interrupted_sleep_platform\<lparr>clock_calls := 2\<rparr>))"
    by (simp add: hal_delay_us_def hal_get_timestamp_us_def clock_gettime_def
        interrupted_sleep_platform_def example_platform_def interrupted_clock_def timespec_to_us_def
        numeral_2_eq_2 [symmetric])
  have d: "fst (hal_get_timestamp_us (nanosleep \<lparr>tv_sec = 0, tv_nsec = 20000000\<rparr>
                  (interrupted_sleep_platform\<lparr>clock_calls := 2\<rparr>))) = 1000"
    by (simp add: nanosleep_def hal_get_timestamp_us_def clock_gettime_def
        interrupted_sleep_platform_def example_platform_def interrupted_clock_def timespec_to_us_def)
  show ?thesis using b c d by simp
qed

text \<open>The clock of that environment never runs backwards: it reads 0, 0, and 1000 from then on.\<close>

lemma interrupted_sleep_timestamps:
  "timestamp_at interrupted_sleep_platform k = (if k < 2 then 0 else 1000)"
  "timestamps_nondecreasing interrupted_sleep_platform"
proof -
  show ts: "\<And>k. timestamp_at interrupted_sleep_platform k = (if k < 2 then 0 else 1000)"
    by (simp add: timestamp_at_def hal_get_timestamp_us_def clock_gettime_def
        interrupted_sleep_platform_def example_platform_def interrupted_clock_def timespec_to_us_def)
  show "timestamps_nondecreasing interrupted_sleep_platform"
    by (simp add: timestamps_nondecreasing_def ts)
qed

section \<open>Waiting for a DMA transfer\<close>

lemma hal_dma_wait_zero: "hal_dma_wait dma_id 0 p = Some (HAL_OK, p)"
  by (simp add: hal_dma_wait_def)

lemma hal_dma_wait_positive:
  "0 < t \<Longrightarrow> hal_dma_wait dma_id t p = map_option (Pair HAL_OK) (hal_delay_us t p)"
  by (simp add: hal_dma_wait_def split: option.splits)

lemma hal_dma_wait_only_ok: "hal_dma_wait dma_id t p = Some r \<Longrightarrow> fst r = HAL_OK"
  by (auto simp add: hal_dma_wait_def split: if_splits option.splits)

lemma hal_dma_wait_returns:
  assumes "hal_get_timestamp_us p = (start, p')"
    and "10000 < t \<or> (timestamps_nondecreasing p \<and> clock_reaches p (start + ucast t))"
  shows "\<exists>q. hal_dma_wait dma_id t p = Some (HAL_OK, q)"
proof (cases "0 < t")
  case False
  then have "t = 0" by (simp add: word_greater_zero_iff)
  then show ?thesis by (simp add: hal_dma_wait_zero)
next
  case True
  have "\<exists>q. hal_delay_us t p = Some q"
  proof (cases "10000 < t")
    case True
    with hal_delay_us_returns [OF assms(1), of t] show ?thesis by blast
  next
    case False
    then have "t \<le> 10000" by (simp add: not_less)
    with assms(2) False hal_delay_us_returns [OF assms(1), of t] show ?thesis by blast
  qed
  then show ?thesis by (auto simp add: hal_dma_wait_positive [OF True])
qed

lemma hal_delay_us_loop_never:
  assumes "\<And>k. timestamp_at p k < e"
  shows "hal_delay_us_loop e p = None"
proof (cases "hal_delay_us_loop e p")
  case None
  then show ?thesis .
next
  case (Some p')
  from hal_delay_us_loop_result [OF Some] obtain k where "e \<le> timestamp_at p k" by blast
  with assms [of k] show ?thesis by simp
qed

lemma dead_clock_timestamp_at: "timestamp_at dead_clock_platform k = 0"
  by (simp add: timestamp_at_def hal_get_timestamp_us_def hal_get_timestamp_us_fallback_def
      clock_gettime_def dead_clock_platform_def example_platform_def)

lemma dead_clock_read:
  "hal_get_timestamp_us dead_clock_platform = (0, dead_clock_platform\<lparr>clock_calls := 2\<rparr>)"
  by (simp add: hal_get_timestamp_us_def hal_get_timestamp_us_fallback_def
      clock_gettime_def dead_clock_platform_def example_platform_def numeral_2_eq_2 [symmetric])

text \<open>
  Claim C10. \<^verbatim>\<open>hal_dma_wait\<close> never returns \<^verbatim>\<open>HAL_TIMEOUT\<close>: every status it returns is \<^verbatim>\<open>HAL_OK\<close>.
  With a zero timeout it returns at once and changes nothing. With a timeout above 10000 it
  returns \<^verbatim>\<open>HAL_OK\<close> after the one sleep that \<^verbatim>\<open>hal_delay_us(timeout_us)\<close> requests. With a positive
  timeout of at most 10000 it blocks for the full timeout: let \<open>t1\<close> be sampled immediately
  before the call and \<open>start\<close> be the reading the call takes on entry; when the timestamps are
  non-decreasing and \<open>start + timeout_us\<close> does not wrap, the call returns exactly when the clock
  reaches \<open>start + timeout_us\<close>, and a timestamp sampled immediately after it is at least
  \<open>timeout_us\<close> above \<open>t1\<close>.
\<close>

theorem hal_dma_wait_blocks_then_ok:
  assumes before: "hal_get_timestamp_us p = (t1, p1)"
      and start: "hal_get_timestamp_us p1 = (start, p1')"
  shows "hal_dma_wait dma_id t p1 \<noteq> Some (HAL_TIMEOUT, q)
       \<and> (\<forall>r. hal_dma_wait dma_id t p1 = Some r \<longrightarrow> fst r = HAL_OK)
       \<and> (t = 0 \<longrightarrow> hal_dma_wait dma_id t p1 = Some (HAL_OK, p1))
       \<and> (10000 < t \<longrightarrow>
            hal_dma_wait dma_id t p1
              = Some (HAL_OK, nanosleep \<lparr>tv_sec = ucast (t div 1000000),
                                         tv_nsec = ucast ((t mod 1000000) * 1000)\<rparr> p1'))
       \<and> (0 < t \<and> t \<le> 10000 \<and> timestamps_nondecreasing p \<and> unat start + unat t < 2 ^ 64 \<longrightarrow>
            ((\<exists>p2. hal_dma_wait dma_id t p1 = Some (HAL_OK, p2)) = clock_reaches p (start + ucast t))
          \<and> (\<forall>p2. hal_dma_wait dma_id t p1 = Some (HAL_OK, p2)
                 \<longrightarrow> ucast t \<le> fst (hal_get_timestamp_us p2) - t1))"
proof (intro conjI impI allI)
  show "hal_dma_wait dma_id t p1 \<noteq> Some (HAL_TIMEOUT, q)"
    using hal_dma_wait_only_ok [of dma_id t p1 "(HAL_TIMEOUT, q)"] by auto
next
  fix r assume "hal_dma_wait dma_id t p1 = Some r"
  then show "fst r = HAL_OK" by (rule hal_dma_wait_only_ok)
next
  assume "t = 0"
  then show "hal_dma_wait dma_id t p1 = Some (HAL_OK, p1)" by (simp add: hal_dma_wait_zero)
next
  assume big: "10000 < t"
  then have "0 < t" by (simp add: word_greater_zero_iff) (metis not_less_iff_gr_or_eq word_not_simps(1))
  with big show "hal_dma_wait dma_id t p1
      = Some (HAL_OK, nanosleep \<lparr>tv_sec = ucast (t div 1000000),
                                 tv_nsec = ucast ((t mod 1000000) * 1000)\<rparr> p1')"
    by (simp add: hal_dma_wait_positive hal_delay_us_sleep [OF _ start])
next
  assume h: "0 < t \<and> t \<le> 10000 \<and> timestamps_nondecreasing p \<and> unat start + unat t < 2 ^ 64"
  then have w: "hal_dma_wait dma_id t p1 = map_option (Pair HAL_OK) (hal_delay_us t p1)"
    by (simp add: hal_dma_wait_positive)
  from h hal_delay_us_busy_poll [OF before start, of t]
  have "(\<exists>p2. hal_delay_us t p1 = Some p2) = clock_reaches p (start + ucast t)" by blast
  then show "(\<exists>p2. hal_dma_wait dma_id t p1 = Some (HAL_OK, p2)) = clock_reaches p (start + ucast t)"
    unfolding w by auto
next
  fix p2
  assume h: "0 < t \<and> t \<le> 10000 \<and> timestamps_nondecreasing p \<and> unat start + unat t < 2 ^ 64"
    and ret: "hal_dma_wait dma_id t p1 = Some (HAL_OK, p2)"
  from h have w: "hal_dma_wait dma_id t p1 = map_option (Pair HAL_OK) (hal_delay_us t p1)"
    by (simp add: hal_dma_wait_positive)
  from ret have "hal_delay_us t p1 = Some p2" unfolding w by auto
  with h hal_delay_us_busy_poll [OF before start, of t]
  show "ucast t \<le> fst (hal_get_timestamp_us p2) - t1" by blast
qed

theorem hal_dma_wait_blocks_then_ok_witness:
  "hal_dma_wait 7 0 (example_platform\<lparr>clock_calls := 1\<rparr>)
     = Some (HAL_OK, example_platform\<lparr>clock_calls := 1\<rparr>)
   \<and> hal_dma_wait 7 20000 (example_platform\<lparr>clock_calls := 1\<rparr>)
       = Some (HAL_OK, nanosleep \<lparr>tv_sec = 0, tv_nsec = 20000000\<rparr> (example_platform\<lparr>clock_calls := 2\<rparr>))
   \<and> timestamps_nondecreasing example_platform
   \<and> clock_reaches example_platform 5000
   \<and> (\<exists>p2. hal_dma_wait 7 5000 (example_platform\<lparr>clock_calls := 1\<rparr>) = Some (HAL_OK, p2)
          \<and> 5000 \<le> fst (hal_get_timestamp_us p2) - 0)"
proof -
  have r1: "hal_get_timestamp_us (example_platform\<lparr>clock_calls := 1\<rparr>)
              = (0, example_platform\<lparr>clock_calls := 2\<rparr>)"
    by (simp add: example_reads)
  note t = hal_dma_wait_blocks_then_ok [OF example_read0 r1, of 7]
  from t [of 0] have a: "hal_dma_wait 7 0 (example_platform\<lparr>clock_calls := 1\<rparr>)
     = Some (HAL_OK, example_platform\<lparr>clock_calls := 1\<rparr>)" by simp
  from t [of 20000] have b: "hal_dma_wait 7 20000 (example_platform\<lparr>clock_calls := 1\<rparr>)
       = Some (HAL_OK, nanosleep \<lparr>tv_sec = 0, tv_nsec = 20000000\<rparr> (example_platform\<lparr>clock_calls := 2\<rparr>))"
    by simp
  from t [of 5000] example_timestamps example_reaches
  have "\<exists>p2. hal_dma_wait 7 5000 (example_platform\<lparr>clock_calls := 1\<rparr>) = Some (HAL_OK, p2)"
    and "\<forall>p2. hal_dma_wait 7 5000 (example_platform\<lparr>clock_calls := 1\<rparr>) = Some (HAL_OK, p2)
           \<longrightarrow> 5000 \<le> fst (hal_get_timestamp_us p2) - 0"
    by simp_all
  then have c: "\<exists>p2. hal_dma_wait 7 5000 (example_platform\<lparr>clock_calls := 1\<rparr>) = Some (HAL_OK, p2)
          \<and> 5000 \<le> fst (hal_get_timestamp_us p2) - 0" by blast
  from a b c example_timestamps example_reaches show ?thesis by blast
qed

text \<open>
  \<^verbatim>\<open>hal_dma_wait\<close> does not return \<^verbatim>\<open>HAL_OK\<close> for every timeout (claim C10 as stated). When both
  clock sources fail, \<^verbatim>\<open>hal_get_timestamp_us\<close> returns the sentinel 0 at every call: the
  timestamps are non-decreasing, the deadline of \<^verbatim>\<open>hal_dma_wait(7, 5000)\<close> is 5000, and the
  busy-wait loop never sees it reached, so the call never returns.
\<close>

theorem hal_dma_wait_dead_clock_counterexample:
  "timestamps_nondecreasing dead_clock_platform
   \<and> clock_nondecreasing dead_clock_platform \<and> clock_in_range dead_clock_platform
   \<and> clock_sources_stable dead_clock_platform
   \<and> hal_dma_wait 7 5000 dead_clock_platform = None"
proof -
  have a: "timestamps_nondecreasing dead_clock_platform"
    by (simp add: timestamps_nondecreasing_def dead_clock_timestamp_at)
  have b: "clock_nondecreasing dead_clock_platform" "clock_in_range dead_clock_platform"
    "clock_sources_stable dead_clock_platform"
    by (simp_all add: clock_nondecreasing_def clock_in_range_def clock_sources_stable_def
        dead_clock_platform_def example_platform_def)
  have "\<And>k. timestamp_at (dead_clock_platform\<lparr>clock_calls := 2\<rparr>) k < 0 + ucast (5000 :: 32 word)"
    by (simp add: dead_clock_timestamp_at)
  then have "hal_delay_us_loop (0 + ucast (5000 :: 32 word)) (dead_clock_platform\<lparr>clock_calls := 2\<rparr>) = None"
    by (rule hal_delay_us_loop_never)
  then have "hal_delay_us 5000 dead_clock_platform = None"
    using hal_delay_us_busy [OF _ dead_clock_read, of 5000] by simp
  then have c: "hal_dma_wait 7 5000 dead_clock_platform = None"
    by (simp add: hal_dma_wait_positive)
  from a b c show ?thesis by simp
qed

text \<open>
  Claim C5. \<^verbatim>\<open>hal_timer_start\<close>, \<^verbatim>\<open>hal_timer_stop\<close> and \<^verbatim>\<open>hal_dma_start\<close> return \<^verbatim>\<open>HAL_OK\<close> for every
  input. \<^verbatim>\<open>hal_timer_get_counter\<close> returns \<^verbatim>\<open>HAL_OK\<close> for every non-null output pointer.
  \<^verbatim>\<open>hal_dma_wait\<close> returns no status but \<^verbatim>\<open>HAL_OK\<close>, and it returns whenever its delay completes.
\<close>

theorem lifecycle_calls_status:
  assumes "hal_get_timestamp_us p = (start, p')"
  shows "hal_timer_start timer_id = HAL_OK \<and> hal_timer_stop timer_id = HAL_OK
       \<and> hal_dma_start dma_id = HAL_OK
       \<and> (counter \<noteq> NULL \<longrightarrow> fst (hal_timer_get_counter timer_id counter mem) = HAL_OK)
       \<and> (\<forall>r. hal_dma_wait dma_id t p = Some r \<longrightarrow> fst r = HAL_OK)
       \<and> (10000 < t \<or> (timestamps_nondecreasing p \<and> clock_reaches p (start + ucast t))
            \<longrightarrow> (\<exists>q. hal_dma_wait dma_id t p = Some (HAL_OK, q)))"
  using hal_dma_wait_only_ok [of dma_id t p] hal_dma_wait_returns [OF assms, of t dma_id]
  by (simp add: hal_timer_start_def hal_timer_stop_def hal_dma_start_def hal_timer_get_counter_def)

theorem lifecycle_calls_status_witness:
  "hal_timer_start 9 = HAL_OK \<and> hal_timer_stop 9 = HAL_OK \<and> hal_dma_start 7 = HAL_OK
   \<and> fst (hal_timer_get_counter 9 4096 (\<lambda>a. 5)) = HAL_OK
   \<and> (\<exists>q. hal_dma_wait 7 20000 example_platform = Some (HAL_OK, q))
   \<and> timestamps_nondecreasing example_platform
   \<and> clock_reaches example_platform (0 + ucast (5000 :: 32 word))
   \<and> (\<exists>q. hal_dma_wait 7 5000 example_platform = Some (HAL_OK, q))"
proof -
  note t = lifecycle_calls_status [OF example_read0, of 9 7 4096 "\<lambda>a. 5"]
  have r: "clock_reaches example_platform (0 + ucast (5000 :: 32 word))"
    using example_reaches by simp
  from t [of 20000] have a: "hal_timer_start 9 = HAL_OK \<and> hal_timer_stop 9 = HAL_OK \<and> hal_dma_start 7 = HAL_OK
   \<and> fst (hal_timer_get_counter 9 4096 (\<lambda>a. 5)) = HAL_OK
   \<and> (\<exists>q. hal_dma_wait 7 20000 example_platform = Some (HAL_OK, q))" by simp
  from t [of 5000] example_timestamps r
  have c: "\<exists>q. hal_dma_wait 7 5000 example_platform = Some (HAL_OK, q)" by blast
  from a c example_timestamps r show ?thesis by blast
qed

text \<open>
  \<^verbatim>\<open>hal_timer_get_counter\<close> does have an error path (claim C5 as stated): a null output pointer
  is answered with \<^verbatim>\<open>HAL_INVALID_PARAM\<close>.
\<close>

theorem hal_timer_get_counter_null_counterexample:
  "hal_timer_get_counter 0 NULL (\<lambda>a. 5) = (HAL_INVALID_PARAM, \<lambda>a. 5)
   \<and> fst (hal_timer_get_counter 0 NULL (\<lambda>a. 5)) \<noteq> HAL_OK"
  by (simp add: hal_timer_get_counter_def)

section \<open>Aligned allocation\<close>

text \<open>
  The rounding \<^verbatim>\<open>(addr + alignment - 1) & ~(alignment - 1)\<close> for an alignment \<open>2 ^ k\<close>: when
  \<open>addr + 2 ^ k\<close> stays inside the address space, the result is the least multiple of
  \<open>2 ^ k\<close> that is not below \<open>addr\<close>.
\<close>

lemma two_power_lt_64: "k < 64 \<Longrightarrow> (2::nat) ^ k < 2 ^ 64"
  by (rule power_strict_increasing) simp_all

lemma unat_2p: "k < 64 \<Longrightarrow> unat (2 ^ k :: 64 word) = 2 ^ k"
proof -
  assume k: "k < 64"
  have "(2 ^ k :: 64 word) = of_nat (2 ^ k)" by simp
  then have "unat (2 ^ k :: 64 word) = 2 ^ k mod 2 ^ LENGTH(64)"
    by (simp only: unat_of_nat)
  also have "\<dots> = 2 ^ k" using two_power_lt_64 [OF k] by simp
  finally show ?thesis .
qed

lemma unat_mask_64: "k < 64 \<Longrightarrow> unat (mask k :: 64 word) = 2 ^ k - 1"
proof -
  assume k: "k < 64"
  then have "unat (2 ^ k :: 64 word) \<noteq> 0" by (simp add: unat_2p)
  then have "(2 ^ k :: 64 word) \<noteq> 0" by (metis unat_0)
  then show ?thesis using k by (simp add: mask_eq_decr_exp unat_minus_one unat_2p)
qed

lemma and_not_mask_eq_minus:
  fixes y :: "64 word"
  shows "y AND NOT (mask k) = y - take_bit k y"
  by (metis (no_types, lifting) and.left_commute bit.conj_one_right
    bit.conj_xor_distrib2 disjunctive_and_not_eq_xor
    disjunctive_diff_eq_and_not take_bit_eq_mask word_and_not)

lemma unat_take_bit_word:
  fixes y :: "64 word"
  shows "unat (take_bit k y) = unat y mod 2 ^ k"
  by (metis take_bit_eq_mod unsigned_take_bit_eq)

lemma unat_and_not_mask:
  fixes y :: "64 word"
  shows "unat (y AND NOT (mask k)) = unat y - unat y mod 2 ^ k"
proof -
  have "take_bit k y \<le> y"
    by (simp add: word_le_nat_alt unat_take_bit_word)
  then show ?thesis
    by (simp add: and_not_mask_eq_minus unat_sub unat_take_bit_word)
qed

lemma align_up:
  fixes addr :: "64 word"
  assumes k: "k < 64" and nowrap: "unat addr + 2 ^ k \<le> 2 ^ 64"
  shows "unat addr \<le> unat ((addr + 2 ^ k - 1) AND NOT (2 ^ k - 1))"
    and "unat ((addr + 2 ^ k - 1) AND NOT (2 ^ k - 1)) < unat addr + 2 ^ k"
    and "unat ((addr + 2 ^ k - 1) AND NOT (2 ^ k - 1)) mod 2 ^ k = 0"
proof -
  let ?y = "addr + mask k"
  have m: "(2 ^ k - 1 :: 64 word) = mask k" by (simp add: mask_eq_decr_exp)
  have y: "addr + 2 ^ k - 1 = ?y" by (simp add: mask_eq_decr_exp)
  from k have um: "unat (mask k :: 64 word) = 2 ^ k - 1"
    by (rule unat_mask_64)
  have pos: "(0::nat) < 2 ^ k" by simp
  from nowrap um pos have "unat addr + unat (mask k :: 64 word) < 2 ^ LENGTH(64)"
    by simp
  then have uy: "unat ?y = unat addr + (2 ^ k - 1)"
    using um by (simp add: unat_add_lem [THEN iffD1])
  have a: "unat (?y AND NOT (mask k)) = unat ?y - unat ?y mod 2 ^ k"
    by (rule unat_and_not_mask)
  have lt: "unat ?y mod 2 ^ k < 2 ^ k" by simp
  have le: "unat ?y mod 2 ^ k \<le> unat ?y" by (rule mod_less_eq_dividend)
  show "unat addr \<le> unat ((addr + 2 ^ k - 1) AND NOT (2 ^ k - 1))"
    unfolding y m a using uy lt le by linarith
  show "unat ((addr + 2 ^ k - 1) AND NOT (2 ^ k - 1)) < unat addr + 2 ^ k"
    unfolding y m a using uy pos by linarith
  show "unat ((addr + 2 ^ k - 1) AND NOT (2 ^ k - 1)) mod 2 ^ k = 0"
    unfolding y m a by (simp add: minus_mod_eq_mult_div)
qed

lemma malloc_result_eq:
  "malloc n p =
     (if malloc_result p (heap_calls p) n = NULL then (NULL, p\<lparr>heap_calls := heap_calls p + 1\<rparr>)
      else (malloc_result p (heap_calls p) n,
            p\<lparr>heap_calls := heap_calls p + 1,
              heap_blocks := (heap_blocks p)(malloc_result p (heap_calls p) n \<mapsto> n)\<rparr>))"
  by (simp add: malloc_def Let_def)

lemma hal_malloc_aligned_fallback_null:
  "malloc_result p (heap_calls p) (sz + alignment + sizeof_ptr) = NULL \<Longrightarrow>
   fst (hal_malloc_aligned_fallback sz alignment p) = NULL"
  by (simp add: hal_malloc_aligned_fallback_def malloc_result_eq)

lemma hal_malloc_aligned_fallback_correct:
  assumes k: "k < 64" and al: "alignment = 2 ^ k"
    and nowrap: "unat sz + 2 ^ k + 8 < 2 ^ 64"
    and raw: "malloc_result p (heap_calls p) (sz + alignment + sizeof_ptr) = raw" "raw \<noteq> NULL"
    and space: "unat raw + (unat sz + 2 ^ k + 8) \<le> 2 ^ 64"
    and res: "hal_malloc_aligned_fallback sz alignment p = (A, p')"
  shows "unat A mod 2 ^ k = 0 \<and> A \<noteq> NULL
       \<and> inside_block p' raw A sz
       \<and> inside_block p' raw (A - sizeof_ptr) sizeof_ptr
       \<and> ptr_mem p' (A - sizeof_ptr) = raw
       \<and> heap_blocks p' raw = Some (sz + alignment + sizeof_ptr)"
proof -
  let ?n = "sz + alignment + sizeof_ptr"
  let ?addr = "raw + sizeof_ptr"
  from k have ual: "unat alignment = 2 ^ k" unfolding al by (rule unat_2p)
  have u8: "unat sizeof_ptr = 8" by (simp add: sizeof_ptr_def)
  from nowrap ual have "unat sz + unat alignment < 2 ^ LENGTH(64)" by simp
  then have u1: "unat (sz + alignment) = unat sz + 2 ^ k"
    using ual by (simp add: unat_add_lem [THEN iffD1])
  from nowrap u1 u8 have "unat (sz + alignment) + unat sizeof_ptr < 2 ^ LENGTH(64)" by simp
  then have un: "unat ?n = unat sz + 2 ^ k + 8"
    using u1 u8 by (simp add: unat_add_lem [THEN iffD1])
  have pos: "(0::nat) < 2 ^ k" by simp
  from space pos have "unat raw + 8 < (2::nat) ^ 64" by linarith
  then have "unat raw + unat sizeof_ptr < 2 ^ LENGTH(64)" by (simp add: u8)
  then have uaddr: "unat ?addr = unat raw + 8"
    using u8 by (simp add: unat_add_lem [THEN iffD1])
  from space uaddr have nw: "unat ?addr + 2 ^ k \<le> 2 ^ 64" by simp
  from res raw have A: "A = (?addr + 2 ^ k - 1) AND NOT (2 ^ k - 1)"
    and p': "p' = p\<lparr>heap_calls := heap_calls p + 1,
                    heap_blocks := (heap_blocks p)(raw \<mapsto> ?n),
                    ptr_mem := (ptr_mem p)(A - sizeof_ptr := raw)\<rparr>"
    by (auto simp add: hal_malloc_aligned_fallback_def malloc_result_eq Let_def al)
  from align_up [OF k nw] have lo: "unat ?addr \<le> unat A" and hi: "unat A < unat ?addr + 2 ^ k"
    and md: "unat A mod 2 ^ k = 0" unfolding A by simp_all
  from lo uaddr have "unat sizeof_ptr \<le> unat A" using u8 by simp
  then have "sizeof_ptr \<le> A" by (simp add: word_le_nat_alt)
  then have us: "unat (A - sizeof_ptr) = unat A - 8" using u8 by (simp add: unat_sub)
  from lo uaddr have nz: "A \<noteq> NULL" by (auto simp add: unat_eq_0 [symmetric] simp del: unat_eq_0)
  have hb: "heap_blocks p' raw = Some ?n" by (simp add: p')
  have i1: "inside_block p' raw A sz"
    using lo hi uaddr un by (simp add: inside_block_def hb)
  have i2: "inside_block p' raw (A - sizeof_ptr) sizeof_ptr"
    using lo hi uaddr un us u8 by (simp add: inside_block_def hb)
  have st: "ptr_mem p' (A - sizeof_ptr) = raw" by (simp add: p')
  from md nz i1 i2 st hb show ?thesis by simp
qed

lemma hal_free_aligned_fallback:
  "\<not> POSIX_C_SOURCE_200112 p \<Longrightarrow> A \<noteq> NULL \<Longrightarrow> ptr_mem p (A - sizeof_ptr) = raw \<Longrightarrow>
   hal_free_aligned A p = free raw p"
  by (simp add: hal_free_aligned_def)

text \<open>
  The address the fallback branch returns is a multiple of the alignment for every size, and
  the other branch returns what \<^verbatim>\<open>posix_memalign\<close> stored, or null when that call failed.
\<close>

lemma hal_malloc_aligned_fallback_aligned:
  assumes k: "k < 64" and al: "alignment = 2 ^ k"
  shows "fst (hal_malloc_aligned_fallback sz alignment p) mod alignment = 0"
proof -
  have m: "(2 ^ k - 1 :: 64 word) = mask k" by (simp add: mask_eq_decr_exp)
  have z: "\<And>x :: 64 word. (x AND NOT (mask k)) AND mask k = 0"
    by (simp add: and.assoc)
  from k have "unat (2 ^ k :: 64 word) \<noteq> 0" by (simp add: unat_2p)
  then have "(0 :: 64 word) < 2 ^ k" by (metis unat_0 word_greater_zero_iff)
  then have md: "\<And>x :: 64 word. x mod 2 ^ k = x AND mask k"
    by (rule word_mod_2p_is_mask)
  show ?thesis
    by (simp add: hal_malloc_aligned_fallback_def malloc_result_eq Let_def al m md z)
qed

lemma hal_malloc_aligned_posix:
  "POSIX_C_SOURCE_200112 p \<Longrightarrow>
   fst (hal_malloc_aligned sz alignment p)
     = (case posix_memalign_result p (heap_calls p) alignment sz of
          (rc, ptr) \<Rightarrow> if rc \<noteq> 0 then NULL else ptr)"
  by (simp add: hal_malloc_aligned_def posix_memalign_def Let_def split: prod.splits)

text \<open>
  Claim C3. The fallback branch keeps the aligned block and the slot of the stashed pointer
  inside the raw allocation while \<^verbatim>\<open>size + alignment + sizeof(void*)\<close> does not wrap
  (\<open>hal_malloc_aligned_fallback_correct\<close> above), and not beyond. For the size \<open>2 ^ 64 - 16\<close> and the alignment
  16 the sum wraps to 8: \<^verbatim>\<open>malloc(8)\<close> succeeds with a block of 8 bytes at \<open>0x1000\<close>, the function
  returns the non-null address \<open>0x1010\<close>, and neither the 8-byte slot at \<open>0x1008\<close>, where it has
  written the raw pointer, nor the block it hands out lies inside those 8 bytes.
\<close>

theorem hal_malloc_aligned_size_overflow:
  "(0xFFFFFFFFFFFFFFF0 :: 64 word) + 16 + sizeof_ptr = 8
   \<and> hal_malloc_aligned 0xFFFFFFFFFFFFFFF0 16 example_platform
       = (0x1010, example_platform\<lparr>heap_calls := 1, heap_blocks := [0x1000 \<mapsto> 8],
                                    ptr_mem := (\<lambda>a. 0)(0x1008 := 0x1000)\<rparr>)
   \<and> \<not> inside_block (snd (hal_malloc_aligned 0xFFFFFFFFFFFFFFF0 16 example_platform))
           0x1000 0x1010 0xFFFFFFFFFFFFFFF0
   \<and> \<not> inside_block (snd (hal_malloc_aligned 0xFFFFFFFFFFFFFFF0 16 example_platform))
           0x1000 0x1008 sizeof_ptr"
proof -
  have a: "(0xFFFFFFFFFFFFFFF0 :: 64 word) + 16 + sizeof_ptr = 8" by (simp add: sizeof_ptr_def)
  have n: "(18446744073709551624 :: 64 word) = 8" by simp
  have b: "hal_malloc_aligned 0xFFFFFFFFFFFFFFF0 16 example_platform
       = (0x1010, example_platform\<lparr>heap_calls := 1, heap_blocks := [0x1000 \<mapsto> 8],
                                    ptr_mem := (\<lambda>a. 0)(0x1008 := 0x1000)\<rparr>)"
    by (simp add: hal_malloc_aligned_def hal_malloc_aligned_fallback_def malloc_def
        example_platform_def sizeof_ptr_def Let_def n)
  show ?thesis
    unfolding b using a by (simp add: inside_block_def sizeof_ptr_def)
qed

end
